theory Spec2Isabelle
  imports Complex_Main "HOL-Library.Word" "HOL-Library.Multiset" "HOL-Library.Sublist"
begin

section \<open>Gumshoe: sampling an S3 bucket and classifying its objects for PII\<close>

text \<open>
  A shallow embedding of \<^verbatim>\<open>gumshoe.py\<close>. The methods of \<^verbatim>\<open>GumshoeInspector\<close> are
  functions over an explicit world (standard output, the log of remote requests and the
  random source); the two AWS clients are fields of the inspector, as in the source.
  The Python built-ins the methods call (\<^verbatim>\<open>bytes.decode\<close>, \<^verbatim>\<open>str.splitlines\<close>,
  \<^verbatim>\<open>random.sample\<close>, slicing) are modelled after CPython. The command line
  (\<^verbatim>\<open>get_args\<close>, \<^verbatim>\<open>main\<close>) and \<^verbatim>\<open>get_s3_buckets\<close> only choose the bucket and the
  configuration that \<^verbatim>\<open>inspect_bucket\<close> receives; they are not part of the model.
\<close>

subsection \<open>Values\<close>

text \<open>
  A Python \<^verbatim>\<open>bytes\<close> object is a list of 8-bit words. A Python \<^verbatim>\<open>str\<close> is a sequence
  of Unicode code points, here a list of naturals: its length counts code points, not
  bytes. Bucket names, object keys and category names are identifiers that are only
  compared and printed; they are of type \<open>string\<close>.
\<close>

type_synonym byte = "8 word"
type_synonym str = "nat list"

datatype exn =
    UnicodeDecodeError
  | UnicodeEncodeError
  | ValueError
  | ClientError string

subsection \<open>The UTF-8 codec\<close>

text \<open>
  \<^verbatim>\<open>bytes.decode('utf-8', errors=...)\<close>, after CPython's \<^verbatim>\<open>utf8_decode\<close>
  (Objects/stringlib/codecs.h) and its caller \<^verbatim>\<open>unicode_decode_utf8\<close>. One step looks
  at the lead byte \<open>ch\<close> and the bytes after it. It yields the code point and the
  number of bytes of the sequence, or one of the decoder's error exits:
  unexpected end of data, invalid start byte, or invalid continuation byte after \<open>k\<close>
  good bytes (the exits \<^verbatim>\<open>InvalidContinuation1..3\<close>).
\<close>

datatype errors = Strict | Ignore

datatype utf8_result =
    Decoded nat nat
  | UnexpectedEnd
  | InvalidStart
  | InvalidContinuation nat

definition IS_CONTINUATION_BYTE :: "nat \<Rightarrow> bool" where
  "IS_CONTINUATION_BYTE ch \<longleftrightarrow> 0x80 \<le> ch \<and> ch < 0xC0"

definition utf8_decode2 :: "nat \<Rightarrow> byte list \<Rightarrow> utf8_result" where
  "utf8_decode2 ch s =
     (if ch < 0xC2 then InvalidStart
      else case s of
        [] \<Rightarrow> UnexpectedEnd
      | b2 # _ \<Rightarrow>
          (let ch2 = unat b2 in
           if \<not> IS_CONTINUATION_BYTE ch2 then InvalidContinuation 1
           else Decoded (ch * 64 + ch2 - (0xC0 * 64 + 0x80)) 2))"

definition utf8_decode3 :: "nat \<Rightarrow> byte list \<Rightarrow> utf8_result" where
  "utf8_decode3 ch s =
     (case s of
        [] \<Rightarrow> UnexpectedEnd
      | [b2] \<Rightarrow>
          (let ch2 = unat b2 in
           if \<not> IS_CONTINUATION_BYTE ch2 \<or> (if ch2 < 0xA0 then ch = 0xE0 else ch = 0xED)
           then InvalidContinuation 1
           else UnexpectedEnd)
      | b2 # b3 # _ \<Rightarrow>
          (let ch2 = unat b2; ch3 = unat b3 in
           if \<not> IS_CONTINUATION_BYTE ch2 then InvalidContinuation 1
           else if ch = 0xE0 \<and> ch2 < 0xA0 then InvalidContinuation 1
           else if ch \<noteq> 0xE0 \<and> ch = 0xED \<and> ch2 \<ge> 0xA0 then InvalidContinuation 1
           else if \<not> IS_CONTINUATION_BYTE ch3 then InvalidContinuation 2
           else Decoded (ch * 4096 + ch2 * 64 + ch3 - (0xE0 * 4096 + 0x80 * 64 + 0x80)) 3))"

definition utf8_decode4 :: "nat \<Rightarrow> byte list \<Rightarrow> utf8_result" where
  "utf8_decode4 ch s =
     (case s of
        [] \<Rightarrow> UnexpectedEnd
      | [b2] \<Rightarrow>
          (let ch2 = unat b2 in
           if \<not> IS_CONTINUATION_BYTE ch2 \<or> (if ch2 < 0x90 then ch = 0xF0 else ch = 0xF4)
           then InvalidContinuation 1
           else UnexpectedEnd)
      | [b2, b3] \<Rightarrow>
          (let ch2 = unat b2; ch3 = unat b3 in
           if \<not> IS_CONTINUATION_BYTE ch2 \<or> (if ch2 < 0x90 then ch = 0xF0 else ch = 0xF4)
           then InvalidContinuation 1
           else if \<not> IS_CONTINUATION_BYTE ch3 then InvalidContinuation 2
           else UnexpectedEnd)
      | b2 # b3 # b4 # _ \<Rightarrow>
          (let ch2 = unat b2; ch3 = unat b3; ch4 = unat b4 in
           if \<not> IS_CONTINUATION_BYTE ch2 then InvalidContinuation 1
           else if ch = 0xF0 \<and> ch2 < 0x90 then InvalidContinuation 1
           else if ch \<noteq> 0xF0 \<and> ch = 0xF4 \<and> ch2 \<ge> 0x90 then InvalidContinuation 1
           else if \<not> IS_CONTINUATION_BYTE ch3 then InvalidContinuation 2
           else if \<not> IS_CONTINUATION_BYTE ch4 then InvalidContinuation 3
           else Decoded (ch * 262144 + ch2 * 4096 + ch3 * 64 + ch4
                         - (0xF0 * 262144 + 0x80 * 4096 + 0x80 * 64 + 0x80)) 4))"

definition utf8_decode_one :: "byte \<Rightarrow> byte list \<Rightarrow> utf8_result" where
  "utf8_decode_one b s =
     (let ch = unat b in
      if ch < 0x80 then Decoded ch 1
      else if ch < 0xE0 then utf8_decode2 ch s
      else if ch < 0xF0 then utf8_decode3 ch s
      else if ch < 0xF5 then utf8_decode4 ch s
      else InvalidStart)"

text \<open>
  The decoding loop. A decoded sequence of \<open>n\<close> bytes moves the read position by \<open>n\<close>:
  the lead byte and \<open>n - 1\<close> bytes after it. On an error exit the strict mode raises
  \<^verbatim>\<open>UnicodeDecodeError\<close>; \<^verbatim>\<open>errors='ignore'\<close> resumes after the reported range, which is
  the rest of the input for an unexpected end, one byte for an invalid start byte and
  the \<open>k\<close> good bytes for an invalid continuation byte.
\<close>

fun utf8_decode :: "errors \<Rightarrow> byte list \<Rightarrow> exn + str" where
  "utf8_decode errors [] = Inr []"
| "utf8_decode errors (b # s) =
     (case utf8_decode_one b s of
        Decoded ch n \<Rightarrow>
          (case utf8_decode errors (drop (n - 1) s) of
             Inl e \<Rightarrow> Inl e
           | Inr p \<Rightarrow> Inr (ch # p))
      | UnexpectedEnd \<Rightarrow>
          (case errors of Strict \<Rightarrow> Inl UnicodeDecodeError | Ignore \<Rightarrow> Inr [])
      | InvalidStart \<Rightarrow>
          (case errors of Strict \<Rightarrow> Inl UnicodeDecodeError | Ignore \<Rightarrow> utf8_decode errors s)
      | InvalidContinuation k \<Rightarrow>
          (case errors of
             Strict \<Rightarrow> Inl UnicodeDecodeError
           | Ignore \<Rightarrow> utf8_decode errors (drop (k - 1) s)))"

text \<open>
  \<^verbatim>\<open>str.encode('utf-8')\<close>, after CPython's \<^verbatim>\<open>utf8_encoder\<close>: one to four bytes for a
  code point, and \<^verbatim>\<open>UnicodeEncodeError\<close> for a surrogate. This is the encoding in
  which a text travels to a service and in which its size in bytes is counted.
\<close>

definition utf8_encode_char :: "nat \<Rightarrow> exn + byte list" where
  "utf8_encode_char ch =
     (if ch < 0x80 then Inr [of_nat ch]
      else if ch < 0x800 then
        Inr [of_nat (0xC0 + ch div 64), of_nat (0x80 + ch mod 64)]
      else if 0xD800 \<le> ch \<and> ch \<le> 0xDFFF then Inl UnicodeEncodeError
      else if ch < 0x10000 then
        Inr [of_nat (0xE0 + ch div 4096), of_nat (0x80 + (ch div 64) mod 64),
             of_nat (0x80 + ch mod 64)]
      else
        Inr [of_nat (0xF0 + ch div 262144), of_nat (0x80 + (ch div 4096) mod 64),
             of_nat (0x80 + (ch div 64) mod 64), of_nat (0x80 + ch mod 64)])"

fun utf8_encode :: "str \<Rightarrow> exn + byte list" where
  "utf8_encode [] = Inr []"
| "utf8_encode (ch # p) =
     (case utf8_encode_char ch of
        Inl e \<Rightarrow> Inl e
      | Inr bs \<Rightarrow> (case utf8_encode p of Inl e \<Rightarrow> Inl e | Inr r \<Rightarrow> Inr (bs @ r)))"

subsection \<open>Slicing and splitting text\<close>

text \<open>
  \<^verbatim>\<open>str.splitlines()\<close>, after CPython's \<^verbatim>\<open>stringlib_splitlines\<close>: a line ends at a
  line break (\<^verbatim>\<open>Py_UNICODE_ISLINEBREAK\<close>), a carriage return followed by a line feed counts
  as one break, the breaks are not kept, and a last line without a break is kept only
  when it is not empty. The first argument is the line read so far.
\<close>

definition ISLINEBREAK :: "nat \<Rightarrow> bool" where
  "ISLINEBREAK c \<longleftrightarrow>
     c = 0x0A \<or> c = 0x0B \<or> c = 0x0C \<or> c = 0x0D \<or> c = 0x1C \<or> c = 0x1D \<or> c = 0x1E \<or>
     c = 0x85 \<or> c = 0x2028 \<or> c = 0x2029"

fun splitlines_from :: "str \<Rightarrow> str \<Rightarrow> str list" where
  "splitlines_from line [] = (if line = [] then [] else [line])"
| "splitlines_from line (c # s) =
     (if c = 0x0D then
        (case s of
           [] \<Rightarrow> line # splitlines_from [] s
         | d # s' \<Rightarrow>
             if d = 0x0A then line # splitlines_from [] s'
             else line # splitlines_from [] s)
      else if ISLINEBREAK c then line # splitlines_from [] s
      else splitlines_from (line @ [c]) s)"

definition splitlines :: "str \<Rightarrow> str list" where
  "splitlines s = splitlines_from [] s"

subsection \<open>Random sampling\<close>

text \<open>
  The state of the module \<^verbatim>\<open>random\<close> is a sequence of raw draws. \<^verbatim>\<open>randbelow(n)\<close>
  takes the next draw and reduces it below \<open>n\<close>, so every sequence of results that
  the generator may give is the result of some sequence of draws.
\<close>

type_synonym rng = "nat \<Rightarrow> nat"

definition randbelow :: "nat \<Rightarrow> rng \<Rightarrow> nat \<times> rng" where
  "randbelow n g = (g 0 mod n, \<lambda>i. g (Suc i))"

text \<open>
  \<^verbatim>\<open>random.sample(population, k)\<close>, after CPython's \<^verbatim>\<open>Random.sample\<close>. A population
  of at most \<open>setsize\<close> elements is copied into a pool: step \<open>i\<close> draws a position
  below \<open>n - i\<close>, takes the element there and moves the last element not yet selected
  into the vacancy.
  \<^verbatim>\<open>
    for i in range(k):
        j = randbelow(n - i)
        result[i] = pool[j]
        pool[j] = pool[n - i - 1]
  \<close>
\<close>

fun sample_pool :: "nat \<Rightarrow> nat list \<Rightarrow> 'a list \<Rightarrow> rng \<Rightarrow> 'a list \<times> rng" where
  "sample_pool n [] pool g = ([], g)"
| "sample_pool n (i # steps) pool g =
     (case randbelow (n - i) g of
        (j, g') \<Rightarrow>
          (case sample_pool n steps (pool[j := pool ! (n - i - 1)]) g' of
             (result, g'') \<Rightarrow> (pool ! j # result, g'')))"

text \<open>
  A larger population is sampled by drawing positions and keeping track of the selected
  ones in a set; a position that was selected before is drawn again.
  \<^verbatim>\<open>
    for i in range(k):
        j = randbelow(n)
        while j in selected:
            j = randbelow(n)
        selected_add(j)
        result[i] = population[j]
  \<close>
  The inner loop ends only when the generator gives a position that is not selected
  yet, so it is a partial function: \<open>None\<close> stands for a loop that runs forever.
\<close>

partial_function (option) draw_unselected :: "nat \<Rightarrow> nat set \<Rightarrow> rng \<Rightarrow> (nat \<times> rng) option" where
  "draw_unselected n selected g =
     (case randbelow n g of
        (j, g') \<Rightarrow> if j \<in> selected then draw_unselected n selected g' else Some (j, g'))"

declare draw_unselected.simps [code]

fun sample_set :: "nat \<Rightarrow> nat list \<Rightarrow> 'a list \<Rightarrow> nat set \<Rightarrow> rng \<Rightarrow> ('a list \<times> rng) option" where
  "sample_set n [] population selected g = Some ([], g)"
| "sample_set n (i # steps) population selected g =
     (case draw_unselected n selected g of
        None \<Rightarrow> None
      | Some (j, g') \<Rightarrow>
          (case sample_set n steps population (insert j selected) g' of
             None \<Rightarrow> None
           | Some (result, g'') \<Rightarrow> Some (population ! j # result, g'')))"

text \<open>
  \<^verbatim>\<open>_ceil(_log(m, 4))\<close> for a positive integer \<open>m\<close>: the least \<open>e\<close> with
  \<open>m \<le> 4 ^ e\<close>.
\<close>

fun ceil_log4 :: "nat \<Rightarrow> nat" where
  "ceil_log4 m = (if m \<le> 1 then 0 else Suc (ceil_log4 ((m + 3) div 4)))"

declare ceil_log4.simps [simp del]

definition random_sample :: "'a list \<Rightarrow> int \<Rightarrow> rng \<Rightarrow> ((exn + 'a list) \<times> rng) option" where
  "random_sample population k g =
     (let n = length population in
      if \<not> (0 \<le> k \<and> k \<le> int n) then Some (Inl ValueError, g)
      else
        let setsize = 21 + (if k > 5 then 4 ^ ceil_log4 (nat k * 3) else 0) in
        if n \<le> setsize then
          (case sample_pool n [0..<nat k] population g of
             (result, g') \<Rightarrow> Some (Inr result, g'))
        else
          (case sample_set n [0..<nat k] population {} g of
             None \<Rightarrow> None
           | Some (result, g') \<Rightarrow> Some (Inr result, g')))"

subsection \<open>The services and the world\<close>

text \<open>
  The responses of the two AWS services are dictionaries in which a key may be absent:
  \<^verbatim>\<open>'Contents'\<close> in the response of \<^verbatim>\<open>list_objects_v2\<close> and \<^verbatim>\<open>'Labels'\<close> in the response of
  \<^verbatim>\<open>contains_pii_entities\<close>. An absent key is \<open>None\<close>. S3 sends no \<^verbatim>\<open>'Contents'\<close> for a
  bucket without objects. A call to a service may raise, which is \<open>Inl\<close>.
\<close>

record s3_object =
  Key :: string

record list_objects_v2_response =
  Contents :: "s3_object list option"

record label =
  Name :: string
  Score :: real

record contains_pii_entities_response =
  Labels :: "label list option"

record s3_client =
  list_objects_v2 :: "string \<Rightarrow> exn + list_objects_v2_response"
  get_object :: "string \<Rightarrow> string \<Rightarrow> exn + byte list"

record comprehend_client =
  contains_pii_entities :: "str \<Rightarrow> string \<Rightarrow> exn + contains_pii_entities_response"

text \<open>
  What the program does to the outside is kept in the world: the lines printed, one
  constructor for each \<^verbatim>\<open>print\<close> of the source, the requests sent to the services, in
  order, and the state of the random generator.
\<close>

datatype out =
    Inspecting_bucket string
  | Bucket_empty_or_no_permission string
  | Checking string string
  | Empty_content string string
  | PII_entities_found string string
  | Type_Score string real
  | First_lines int string string
  | Numbered_line nat str
  | Dots
  | Blank_line
  | No_PII_entities_found string string

datatype request =
    List_objects_v2 string
  | Get_object string string
  | Contains_pii_entities str string

record world =
  stdout :: "out list"
  requests :: "request list"
  generator :: rng

definition print :: "out \<Rightarrow> world \<Rightarrow> world" where
  "print line w = w\<lparr>stdout := stdout w @ [line]\<rparr>"

definition send :: "request \<Rightarrow> world \<Rightarrow> world" where
  "send r w = w\<lparr>requests := requests w @ [r]\<rparr>"

subsection \<open>GumshoeInspector\<close>

definition IGNORE_TYPES :: "string list" where
  "IGNORE_TYPES = [''DATE_TIME'', ''DATE'', ''TIME'', ''IP_ADDRESS'', ''MAC_ADDRESS'', ''URL'']"

record GumshoeInspector =
  s3 :: s3_client
  comprehend :: comprehend_client
  sample_size :: int
  display_lines :: int

definition sample_s3_bucket_contents ::
  "GumshoeInspector \<Rightarrow> string \<Rightarrow> world \<Rightarrow> ((exn + string list) \<times> world) option" where
  "sample_s3_bucket_contents self bucket w =
     (let w1 = send (List_objects_v2 bucket) w in
      case list_objects_v2 (s3 self) bucket of
        Inl e \<Rightarrow> Some (Inl e, w1)
      | Inr response \<Rightarrow>
          (case Contents response of
             Some contents \<Rightarrow>
               (let all_objects = map Key contents in
                case random_sample all_objects (min 10 (int (length all_objects)))
                       (generator w1) of
                  None \<Rightarrow> None
                | Some (sample, g) \<Rightarrow> Some (sample, w1\<lparr>generator := g\<rparr>))
           | None \<Rightarrow> Some (Inr [], print (Bucket_empty_or_no_permission bucket) w1)))"

text \<open>
  The \<^verbatim>\<open>try\<close> block of \<^verbatim>\<open>read_s3_object_content\<close>: strict decoding, and on
  \<^verbatim>\<open>UnicodeDecodeError\<close> decoding again with the invalid bytes left out.
\<close>

definition decode_content :: "byte list \<Rightarrow> exn + str" where
  "decode_content content =
     (case utf8_decode Strict content of
        Inr content_str \<Rightarrow> Inr content_str
      | Inl UnicodeDecodeError \<Rightarrow> utf8_decode Ignore content
      | Inl e \<Rightarrow> Inl e)"

definition read_s3_object_content ::
  "GumshoeInspector \<Rightarrow> string \<Rightarrow> string \<Rightarrow> world \<Rightarrow> (exn + str) \<times> world" where
  "read_s3_object_content self bucket key w =
     (let w1 = send (Get_object bucket key) w in
      case get_object (s3 self) bucket key of
        Inl e \<Rightarrow> (Inl e, w1)
      | Inr content \<Rightarrow> (decode_content content, w1))"

definition check_for_pii_using_aws_comprehend ::
  "GumshoeInspector \<Rightarrow> string \<Rightarrow> string \<Rightarrow> str \<Rightarrow> world
     \<Rightarrow> (exn + contains_pii_entities_response option) \<times> world" where
  "check_for_pii_using_aws_comprehend self bucket_name object_name content_str w =
     (if content_str = [] then (Inr None, print (Empty_content bucket_name object_name) w)
      else
        let content_sample = take 90000 content_str;
            w1 = send (Contains_pii_entities content_sample ''en'') w
        in case contains_pii_entities (comprehend self) content_sample ''en'' of
             Inl e \<Rightarrow> (Inl e, w1)
           | Inr response \<Rightarrow> (Inr (Some response), w1))"

text \<open>
  \<^verbatim>\<open>process_pii_entities\<close> reads the module's list \<^verbatim>\<open>IGNORE_TYPES\<close>; the list is its
  first argument here, and \<^verbatim>\<open>inspect_bucket\<close> passes the module's value.
\<close>

definition process_pii_entities ::
  "string list \<Rightarrow> contains_pii_entities_response \<Rightarrow> string \<Rightarrow> label list option" where
  "process_pii_entities ignore_types comprehend_response object_name =
     (case Labels comprehend_response of
        Some labels \<Rightarrow> Some (filter (\<lambda>l. Name l \<notin> set ignore_types) labels)
      | None \<Rightarrow> None)"

text \<open>The report of one object with findings: the branch \<^verbatim>\<open>if labels:\<close> of the loop.\<close>

definition report_labels ::
  "GumshoeInspector \<Rightarrow> string \<Rightarrow> string \<Rightarrow> str \<Rightarrow> label list \<Rightarrow> world \<Rightarrow> world" where
  "report_labels self bucket_name object_name content_str labels w =
     (let w1 = print (PII_entities_found bucket_name object_name) w;
          w2 = foldl (\<lambda>w label. print (Type_Score (Name label) (Score label)) w) w1 labels;
          w3 = (if display_lines self > 0 then
                  (let w4 = print (First_lines (display_lines self) bucket_name object_name) w2;
                       content_lines = splitlines content_str;
                       w5 = foldl (\<lambda>w (i, line). print (Numbered_line i line) w) w4
                              (List.enumerate 1 (take 10 content_lines))
                   in if length content_lines > 10 then print Dots w5 else w5)
                else w2)
      in print Blank_line w3)"

text \<open>
  The body of the loop of \<^verbatim>\<open>inspect_bucket\<close> for one sampled key. The result is the
  exception that leaves the loop, if any. \<^verbatim>\<open>if labels:\<close> is false for \<^verbatim>\<open>None\<close> and
  for the empty list.
\<close>

definition inspect_object ::
  "GumshoeInspector \<Rightarrow> string \<Rightarrow> string \<Rightarrow> world \<Rightarrow> exn option \<times> world" where
  "inspect_object self bucket_name object_name w =
     (let w1 = print (Checking bucket_name object_name) w in
      case read_s3_object_content self bucket_name object_name w1 of
        (Inl e, w2) \<Rightarrow> (Some e, w2)
      | (Inr content_str, w2) \<Rightarrow>
          (case check_for_pii_using_aws_comprehend self bucket_name object_name content_str w2 of
             (Inl e, w3) \<Rightarrow> (Some e, w3)
           | (Inr None, w3) \<Rightarrow> (None, w3)
           | (Inr (Some comprehend_response), w3) \<Rightarrow>
               (case process_pii_entities IGNORE_TYPES comprehend_response object_name of
                  None \<Rightarrow> (None, print (No_PII_entities_found bucket_name object_name) w3)
                | Some [] \<Rightarrow> (None, print (No_PII_entities_found bucket_name object_name) w3)
                | Some labels \<Rightarrow>
                    (None, report_labels self bucket_name object_name content_str labels w3))))"

fun inspect_objects ::
  "GumshoeInspector \<Rightarrow> string \<Rightarrow> string list \<Rightarrow> world \<Rightarrow> exn option \<times> world" where
  "inspect_objects self bucket_name [] w = (None, w)"
| "inspect_objects self bucket_name (object_name # sample) w =
     (case inspect_object self bucket_name object_name w of
        (Some e, w') \<Rightarrow> (Some e, w')
      | (None, w') \<Rightarrow> inspect_objects self bucket_name sample w')"

definition inspect_bucket ::
  "GumshoeInspector \<Rightarrow> string \<Rightarrow> world \<Rightarrow> (exn option \<times> world) option" where
  "inspect_bucket self bucket_name w =
     (let w1 = print (Inspecting_bucket bucket_name) w in
      case sample_s3_bucket_contents self bucket_name w1 of
        None \<Rightarrow> None
      | Some (Inl e, w2) \<Rightarrow> Some (Some e, w2)
      | Some (Inr sample, w2) \<Rightarrow> Some (inspect_objects self bucket_name sample w2))"

subsection \<open>A fair random source\<close>

text \<open>
  The sampling of a large population returns only if the generator gives, sooner or
  later, a position that is not selected yet. A source is fair for \<open>n\<close> when each
  position below \<open>n\<close> comes up again after any number of draws.
\<close>

definition fair :: "nat \<Rightarrow> rng \<Rightarrow> bool" where
  "fair n g \<longleftrightarrow> (\<forall>m j. j < n \<longrightarrow> (\<exists>i\<ge>m. g i mod n = j))"

subsection \<open>Example inputs\<close>

text \<open>
  An inspector whose services answer every request in the same way: the listing holds
  \<open>contents\<close>, every object holds \<open>body\<close>, and the classifier answers \<open>labels\<close>.
\<close>

definition example_s3 :: "s3_object list option \<Rightarrow> byte list \<Rightarrow> s3_client" where
  "example_s3 contents body =
     \<lparr>list_objects_v2 = (\<lambda>bucket. Inr \<lparr>Contents = contents\<rparr>),
      get_object = (\<lambda>bucket key. Inr body)\<rparr>"

definition example_comprehend :: "label list option \<Rightarrow> comprehend_client" where
  "example_comprehend labels = \<lparr>contains_pii_entities = (\<lambda>text language. Inr \<lparr>Labels = labels\<rparr>)\<rparr>"

definition example_inspector ::
  "s3_object list option \<Rightarrow> byte list \<Rightarrow> label list option \<Rightarrow> int \<Rightarrow> int \<Rightarrow> GumshoeInspector" where
  "example_inspector contents body labels n d =
     \<lparr>s3 = example_s3 contents body, comprehend = example_comprehend labels,
      sample_size = n, display_lines = d\<rparr>"

definition example_world :: world where
  "example_world = \<lparr>stdout = [], requests = [], generator = (\<lambda>i. i)\<rparr>"

lemmas example_defs = example_inspector_def example_s3_def example_comprehend_def example_world_def

definition three_keys :: "s3_object list" where
  "three_keys = [\<lparr>Key = ''k1''\<rparr>, \<lparr>Key = ''k2''\<rparr>, \<lparr>Key = ''k3''\<rparr>]"

definition five_lines :: "byte list" where
  "five_lines = [0x61, 0x0A, 0x62, 0x0A, 0x63, 0x0A, 0x64, 0x0A, 0x65]"

section \<open>Properties of the built-ins\<close>

subsection \<open>Decoding and encoding one UTF-8 sequence\<close>

text \<open>
  The code point of a sequence is split into groups of six bits; the lemmas below read
  the groups back from the code point that the decoder computes.
\<close>

lemma divq: "r < 64 \<Longrightarrow> (q * 64 + r) div 64 = (q::nat)" by simp
lemma modq: "r < 64 \<Longrightarrow> (q * 64 + r) mod 64 = (r::nat)" by simp

lemma bits2:
  fixes a b2 :: nat
  assumes "0xC2 \<le> a" "a < 0xE0" "0x80 \<le> b2" "b2 < 0xC0"
  defines "c \<equiv> a * 64 + b2 - (0xC0 * 64 + 0x80)"
  shows "0xC0 + c div 64 = a" "0x80 + c mod 64 = b2" "0x80 \<le> c" "c < 0x800"
proof -
  define x y where "x = a - 0xC0" and "y = b2 - 0x80"
  have a: "a = 0xC0 + x" and b: "b2 = 0x80 + y"
    using assms(1,3) by (simp_all add: x_def y_def)
  have y: "y < 64" and x: "2 \<le> x" "x < 32" using assms(1-4) by (simp_all add: x_def y_def)
  have c: "c = x * 64 + y" by (simp add: c_def a b)
  have d: "c div 64 = x" unfolding c using y by (rule divq)
  have m: "c mod 64 = y" unfolding c using y by (rule modq)
  show "0xC0 + c div 64 = a" "0x80 + c mod 64 = b2"
    by (simp_all only: d m a b)
  show "0x80 \<le> c" "c < 0x800" unfolding c using x y by simp_all
qed

lemma bits3:
  fixes a b2 b3 :: nat
  assumes "0xE0 \<le> a" "a < 0xF0" "0x80 \<le> b2" "b2 < 0xC0" "0x80 \<le> b3" "b3 < 0xC0"
  defines "c \<equiv> a * 4096 + b2 * 64 + b3 - (0xE0 * 4096 + 0x80 * 64 + 0x80)"
  shows "0xE0 + c div 4096 = a" "0x80 + (c div 64) mod 64 = b2" "0x80 + c mod 64 = b3"
    "c < 0x10000" "c = (a - 0xE0) * 4096 + (b2 - 0x80) * 64 + (b3 - 0x80)"
proof -
  define x y z where "x = a - 0xE0" and "y = b2 - 0x80" and "z = b3 - 0x80"
  have a: "a = 0xE0 + x" and b: "b2 = 0x80 + y" and b3: "b3 = 0x80 + z"
    using assms(1,3,5) by (simp_all add: x_def y_def z_def)
  have y: "y < 64" and x: "x < 16" and z: "z < 64"
    using assms(1-6) by (simp_all add: x_def y_def z_def)
  have c: "c = (x * 64 + y) * 64 + z" by (simp add: c_def a b b3)
  have d64: "c div 64 = x * 64 + y" unfolding c using z by (rule divq)
  have m64: "c mod 64 = z" unfolding c using z by (rule modq)
  have "c div 4096 = (c div 64) div 64" by (simp add: div_mult2_eq)
  also have "\<dots> = x" unfolding d64 using y by (rule divq)
  finally have d4096: "c div 4096 = x" .
  have m2: "(c div 64) mod 64 = y" unfolding d64 using y by (rule modq)
  show "0xE0 + c div 4096 = a" "0x80 + (c div 64) mod 64 = b2" "0x80 + c mod 64 = b3"
    by (simp_all only: d4096 m2 m64 a b b3)
  show "c < 0x10000" unfolding c using x y z by simp
  show "c = (a - 0xE0) * 4096 + (b2 - 0x80) * 64 + (b3 - 0x80)"
    unfolding c a b b3 by simp
qed

lemma bits4:
  fixes a b2 b3 b4 :: nat
  assumes "0xF0 \<le> a" "a < 0xF5" "0x80 \<le> b2" "b2 < 0xC0" "0x80 \<le> b3" "b3 < 0xC0" "0x80 \<le> b4" "b4 < 0xC0"
  defines "c \<equiv> a * 262144 + b2 * 4096 + b3 * 64 + b4 - (0xF0 * 262144 + 0x80 * 4096 + 0x80 * 64 + 0x80)"
  shows "0xF0 + c div 262144 = a" "0x80 + (c div 4096) mod 64 = b2" "0x80 + (c div 64) mod 64 = b3" "0x80 + c mod 64 = b4"
   "c = (a - 0xF0) * 262144 + (b2 - 0x80) * 4096 + (b3 - 0x80) * 64 + (b4 - 0x80)"
proof -
  define x y z w where "x = a - 0xF0" and "y = b2 - 0x80" and "z = b3 - 0x80" and "w = b4 - 0x80"
  have a: "a = 0xF0 + x" and b: "b2 = 0x80 + y" and b3: "b3 = 0x80 + z"
    and b4: "b4 = 0x80 + w"
    using assms(1,3,5,7) by (simp_all add: x_def y_def z_def w_def)
  have y: "y < 64" and x: "x < 5" and z: "z < 64" and w: "w < 64"
    using assms(1-8) by (simp_all add: x_def y_def z_def w_def)
  have c: "c = ((x * 64 + y) * 64 + z) * 64 + w" by (simp add: c_def a b b3 b4)
  have d64: "c div 64 = (x * 64 + y) * 64 + z" unfolding c using w by (rule divq)
  have m64: "c mod 64 = w" unfolding c using w by (rule modq)
  have "c div 4096 = (c div 64) div 64" by (simp add: div_mult2_eq)
  also have "\<dots> = x * 64 + y" unfolding d64 using z by (rule divq)
  finally have d4096: "c div 4096 = x * 64 + y" .
  have "c div 262144 = (c div 4096) div 64" by (simp add: div_mult2_eq)
  also have "\<dots> = x" unfolding d4096 using y by (rule divq)
  finally have d3: "c div 262144 = x" .
  have m2: "(c div 64) mod 64 = z" unfolding d64 using z by (rule modq)
  have m3: "(c div 4096) mod 64 = y" unfolding d4096 using y by (rule modq)
  show "0xF0 + c div 262144 = a" "0x80 + (c div 4096) mod 64 = b2" "0x80 + (c div 64) mod 64 = b3" "0x80 + c mod 64 = b4"
    by (simp_all only: d3 m3 m2 m64 a b b3 b4)
  show "c = (a - 0xF0) * 262144 + (b2 - 0x80) * 4096 + (b3 - 0x80) * 64 + (b4 - 0x80)"
    unfolding c a b b3 b4 by simp
qed

lemma dec2_shape:
  assumes "utf8_decode2 (unat b) s = Decoded c n"
  shows "\<exists>b2 r. s = b2 # r \<and> 0xC2 \<le> unat b \<and> 0x80 \<le> unat b2 \<and> unat b2 < 0xC0 \<and>
     c = unat b * 64 + unat b2 - (0xC0 * 64 + 0x80) \<and> n = 2"
proof (cases s)
  case Nil
  with assms show ?thesis by (simp add: utf8_decode2_def split: if_splits)
next
  case (Cons b2 t)
  with assms show ?thesis
    by (auto simp: utf8_decode2_def Let_def IS_CONTINUATION_BYTE_def split: if_splits)
qed

lemma dec3_shape:
  assumes "utf8_decode3 (unat b) s = Decoded c n"
  shows "\<exists>b2 b3 r. s = b2 # b3 # r \<and> 0x80 \<le> unat b2 \<and> unat b2 < 0xC0 \<and>
     0x80 \<le> unat b3 \<and> unat b3 < 0xC0 \<and>
     (unat b = 0xE0 \<longrightarrow> 0xA0 \<le> unat b2) \<and> (unat b = 0xED \<longrightarrow> unat b2 < 0xA0) \<and>
     c = unat b * 4096 + unat b2 * 64 + unat b3 - (0xE0 * 4096 + 0x80 * 64 + 0x80) \<and> n = 3"
proof (cases s)
  case Nil
  with assms show ?thesis by (simp add: utf8_decode3_def)
next
  case (Cons b2 t)
  show ?thesis
  proof (cases t)
    case Nil
    with Cons assms show ?thesis by (simp add: utf8_decode3_def Let_def split: if_splits)
  next
    case (Cons b3 r)
    with \<open>s = b2 # t\<close> assms show ?thesis
      by (auto simp: utf8_decode3_def Let_def IS_CONTINUATION_BYTE_def split: if_splits)
  qed
qed

lemma dec4_shape:
  assumes "utf8_decode4 (unat b) s = Decoded c n"
  shows "\<exists>b2 b3 b4 r. s = b2 # b3 # b4 # r \<and> 0x80 \<le> unat b2 \<and> unat b2 < 0xC0 \<and>
     0x80 \<le> unat b3 \<and> unat b3 < 0xC0 \<and> 0x80 \<le> unat b4 \<and> unat b4 < 0xC0 \<and>
     (unat b = 0xF0 \<longrightarrow> 0x90 \<le> unat b2) \<and> (unat b = 0xF4 \<longrightarrow> unat b2 < 0x90) \<and>
     c = unat b * 262144 + unat b2 * 4096 + unat b3 * 64 + unat b4
           - (0xF0 * 262144 + 0x80 * 4096 + 0x80 * 64 + 0x80) \<and> n = 4"
proof (cases s)
  case Nil
  with assms show ?thesis by (simp add: utf8_decode4_def)
next
  case s1: (Cons b2 t)
  show ?thesis
  proof (cases t)
    case Nil
    with s1 assms show ?thesis by (simp add: utf8_decode4_def Let_def split: if_splits)
  next
    case s2: (Cons b3 u)
    show ?thesis
    proof (cases u)
      case Nil
      with s1 s2 assms show ?thesis by (simp add: utf8_decode4_def Let_def split: if_splits)
    next
      case (Cons b4 r)
      with s1 s2 assms show ?thesis
        by (auto simp: utf8_decode4_def Let_def IS_CONTINUATION_BYTE_def split: if_splits)
    qed
  qed
qed

lemma dec2_enc:
  assumes "utf8_decode2 (unat b) s = Decoded c n" "unat b < 0xE0"
  shows "utf8_encode_char c = Inr (b # take (n - 1) s) \<and> n - 1 \<le> length s"
proof -
  from dec2_shape [OF assms(1)] obtain b2 r where s: "s = b2 # r" and b: "0xC2 \<le> unat b"
    and c2: "0x80 \<le> unat b2" "unat b2 < 0xC0"
    and c: "c = unat b * 64 + unat b2 - (0xC0 * 64 + 0x80)" and n: "n = 2"
    by blast
  note f = bits2 [OF b assms(2) c2, folded c]
  have "utf8_encode_char c = Inr [of_nat (0xC0 + c div 64), of_nat (0x80 + c mod 64)]"
    using f(3,4) by (simp add: utf8_encode_char_def)
  then show ?thesis
    unfolding f(1,2) by (simp add: s n)
qed

lemma dec3_enc:
  assumes "utf8_decode3 (unat b) s = Decoded c n" "0xE0 \<le> unat b" "unat b < 0xF0"
  shows "utf8_encode_char c = Inr (b # take (n - 1) s) \<and> n - 1 \<le> length s"
proof -
  from dec3_shape [OF assms(1)] obtain b2 b3 r where s: "s = b2 # b3 # r"
    and c2: "0x80 \<le> unat b2" "unat b2 < 0xC0"
    and c3: "0x80 \<le> unat b3" "unat b3 < 0xC0"
    and lo: "unat b = 0xE0 \<longrightarrow> 0xA0 \<le> unat b2"
    and hi: "unat b = 0xED \<longrightarrow> unat b2 < 0xA0"
    and c: "c = unat b * 4096 + unat b2 * 64 + unat b3 - (0xE0 * 4096 + 0x80 * 64 + 0x80)"
    and n: "n = 3"
    by blast
  note f = bits3 [OF assms(2,3) c2 c3, folded c]
  have r1: "0x800 \<le> c"
  proof (cases "unat b = 0xE0")
    case True
    with lo f(5) show ?thesis by simp
  next
    case False
    with assms(2) f(5) show ?thesis by simp
  qed
  have r2: "\<not> (0xD800 \<le> c \<and> c \<le> 0xDFFF)"
  proof -
    consider "unat b < 0xED" | "unat b = 0xED" | "0xED < unat b" by linarith
    then show ?thesis
    proof cases
      case 1
      with f(5) c2 c3 show ?thesis by simp
    next
      case 2
      with hi f(5) c2 c3 show ?thesis by simp
    next
      case 3
      then have "14 * 4096 \<le> (unat b - 0xE0) * 4096" by simp
      with f(5) show ?thesis by linarith
    qed
  qed
  have "utf8_encode_char c = Inr [of_nat (0xE0 + c div 4096), of_nat (0x80 + (c div 64) mod 64),
             of_nat (0x80 + c mod 64)]"
    using r1 r2 f(4) by (simp add: utf8_encode_char_def)
  then show ?thesis
    unfolding f(1,2,3) by (simp add: s n)
qed

lemma dec4_enc:
  assumes "utf8_decode4 (unat b) s = Decoded c n" "0xF0 \<le> unat b" "unat b < 0xF5"
  shows "utf8_encode_char c = Inr (b # take (n - 1) s) \<and> n - 1 \<le> length s"
proof -
  from dec4_shape [OF assms(1)] obtain b2 b3 b4 r where s: "s = b2 # b3 # b4 # r"
    and c2: "0x80 \<le> unat b2" "unat b2 < 0xC0"
    and c3: "0x80 \<le> unat b3" "unat b3 < 0xC0"
    and c4: "0x80 \<le> unat b4" "unat b4 < 0xC0"
    and lo: "unat b = 0xF0 \<longrightarrow> 0x90 \<le> unat b2"
    and c: "c = unat b * 262144 + unat b2 * 4096 + unat b3 * 64 + unat b4
                - (0xF0 * 262144 + 0x80 * 4096 + 0x80 * 64 + 0x80)"
    and n: "n = 4"
    by blast
  note f = bits4 [OF assms(2,3) c2 c3 c4, folded c]
  have r: "0x10000 \<le> c"
  proof (cases "unat b = 0xF0")
    case True
    with lo f(5) show ?thesis by simp
  next
    case False
    with assms(2) f(5) show ?thesis by simp
  qed
  have "utf8_encode_char c = Inr [of_nat (0xF0 + c div 262144), of_nat (0x80 + (c div 4096) mod 64),
             of_nat (0x80 + (c div 64) mod 64), of_nat (0x80 + c mod 64)]"
    using r by (simp add: utf8_encode_char_def)
  then show ?thesis
    unfolding f(1,2,3,4) by (simp add: s n)
qed

lemma utf8_decode_one_encode:
  assumes "utf8_decode_one b s = Decoded c n"
  shows "utf8_encode_char c = Inr (b # take (n - 1) s) \<and> n - 1 \<le> length s"
proof -
  consider "unat b < 0x80" | "0x80 \<le> unat b" "unat b < 0xE0" | "0xE0 \<le> unat b" "unat b < 0xF0"
    | "0xF0 \<le> unat b" "unat b < 0xF5" | "0xF5 \<le> unat b"
    by linarith
  then show ?thesis
  proof cases
    case 1
    with assms show ?thesis by (auto simp: utf8_decode_one_def utf8_encode_char_def)
  next
    case 2
    with assms have "utf8_decode2 (unat b) s = Decoded c n" by (simp add: utf8_decode_one_def)
    then show ?thesis using 2(2) by (rule dec2_enc)
  next
    case 3
    with assms have "utf8_decode3 (unat b) s = Decoded c n" by (simp add: utf8_decode_one_def)
    then show ?thesis using 3 by (rule dec3_enc)
  next
    case 4
    with assms have "utf8_decode4 (unat b) s = Decoded c n" by (simp add: utf8_decode_one_def)
    then show ?thesis using 4 by (rule dec4_enc)
  next
    case 5
    with assms show ?thesis by (simp add: utf8_decode_one_def)
  qed
qed

lemma utf8_decode_encode_gen:
  "utf8_decode e bs = Inr p \<Longrightarrow> e = Strict \<Longrightarrow> utf8_encode p = Inr bs"
proof (induction e bs arbitrary: p rule: utf8_decode.induct)
  case (1 errors)
  then show ?case by simp
next
  case (2 errors b s)
  from "2.prems" obtain c n p' where
    one: "utf8_decode_one b s = Decoded c n" and
    rest: "utf8_decode errors (drop (n - 1) s) = Inr p'" and p: "p = c # p'"
    by (auto split: utf8_result.splits sum.splits)
  from "2.IH"(1) [OF one rest "2.prems"(2)] have "utf8_encode p' = Inr (drop (n - 1) s)" .
  moreover from utf8_decode_one_encode [OF one]
  have "utf8_encode_char c = Inr (b # take (n - 1) s)" by simp
  ultimately show ?case by (simp add: p)
qed

lemma utf8_decode_strict_error:
  "utf8_decode Strict bs = Inl e \<Longrightarrow> e = UnicodeDecodeError"
  by (induction Strict bs arbitrary: e rule: utf8_decode.induct)
     (auto split: utf8_result.splits sum.splits)

text \<open>
  The other direction: the bytes that the encoder writes for a code point are read back
  by one step of the decoder as that code point.
\<close>

lemma unat_of_nat_byte: "n < 256 \<Longrightarrow> unat (of_nat n :: byte) = n"
  by (simp add: unat_of_nat)

lemma dec2_of_bytes:
  assumes "0xC2 \<le> a" "a < 0xE0" "0x80 \<le> b" "b < 0xC0"
  shows "utf8_decode_one (of_nat a) (of_nat b # s) = Decoded (a * 64 + b - (0xC0 * 64 + 0x80)) 2"
proof -
  have "unat (of_nat a :: byte) = a" "unat (of_nat b :: byte) = b"
    using assms by (simp_all add: unat_of_nat_byte)
  then show ?thesis
    using assms by (simp add: utf8_decode_one_def utf8_decode2_def IS_CONTINUATION_BYTE_def)
qed

lemma dec3_of_bytes:
  assumes "0xE0 \<le> a" "a < 0xF0" "0x80 \<le> b" "b < 0xC0" "0x80 \<le> c" "c < 0xC0"
    and "a = 0xE0 \<longrightarrow> 0xA0 \<le> b" "a = 0xED \<longrightarrow> b < 0xA0"
  shows "utf8_decode_one (of_nat a) (of_nat b # of_nat c # s) =
     Decoded (a * 4096 + b * 64 + c - (0xE0 * 4096 + 0x80 * 64 + 0x80)) 3"
proof -
  have "unat (of_nat a :: byte) = a" "unat (of_nat b :: byte) = b" "unat (of_nat c :: byte) = c"
    using assms by (simp_all add: unat_of_nat_byte)
  then show ?thesis
    using assms by (auto simp: utf8_decode_one_def utf8_decode3_def IS_CONTINUATION_BYTE_def)
qed

lemma dec4_of_bytes:
  assumes "0xF0 \<le> a" "a < 0xF5" "0x80 \<le> b" "b < 0xC0" "0x80 \<le> c" "c < 0xC0"
    "0x80 \<le> d" "d < 0xC0"
    and "a = 0xF0 \<longrightarrow> 0x90 \<le> b" "a = 0xF4 \<longrightarrow> b < 0x90"
  shows "utf8_decode_one (of_nat a) (of_nat b # of_nat c # of_nat d # s) =
     Decoded (a * 262144 + b * 4096 + c * 64 + d
              - (0xF0 * 262144 + 0x80 * 4096 + 0x80 * 64 + 0x80)) 4"
proof -
  have "unat (of_nat a :: byte) = a" "unat (of_nat b :: byte) = b" "unat (of_nat c :: byte) = c"
    "unat (of_nat d :: byte) = d"
    using assms by (simp_all add: unat_of_nat_byte)
  then show ?thesis
    using assms by (auto simp: utf8_decode_one_def utf8_decode4_def IS_CONTINUATION_BYTE_def)
qed

lemma enc_bits2:
  fixes c :: nat
  assumes "0x80 \<le> c" "c < 0x800"
  shows "0xC2 \<le> 0xC0 + c div 64" "0xC0 + c div 64 < 0xE0" "0x80 + c mod 64 < 0xC0"
    "(0xC0 + c div 64) * 64 + (0x80 + c mod 64) - (0xC0 * 64 + 0x80) = c"
proof -
  define x y where "x = c div 64" and "y = c mod 64"
  have c: "c = x * 64 + y" and y: "y < 64" by (simp_all add: x_def y_def)
  have x: "2 \<le> x" "x < 32" using assms y unfolding c by linarith+
  have e: "(0xC0 + x) * 64 + (0x80 + y) - (0xC0 * 64 + 0x80) = x * 64 + y" by simp
  show "0xC2 \<le> 0xC0 + c div 64" "0xC0 + c div 64 < 0xE0" "0x80 + c mod 64 < 0xC0"
    using x y by (simp_all add: x_def y_def)
  show "(0xC0 + c div 64) * 64 + (0x80 + c mod 64) - (0xC0 * 64 + 0x80) = c"
    using e unfolding c [symmetric] by (simp only: x_def y_def)
qed

lemma enc_bits3:
  fixes c :: nat
  assumes "0x800 \<le> c" "c < 0x10000" "\<not> (0xD800 \<le> c \<and> c \<le> 0xDFFF)"
  defines "a \<equiv> 0xE0 + c div 4096" and "b \<equiv> 0x80 + (c div 64) mod 64" and "d \<equiv> 0x80 + c mod 64"
  shows "0xE0 \<le> a" "a < 0xF0" "0x80 \<le> b" "b < 0xC0" "0x80 \<le> d" "d < 0xC0"
    "a = 0xE0 \<longrightarrow> 0xA0 \<le> b" "a = 0xED \<longrightarrow> b < 0xA0"
    "a * 4096 + b * 64 + d - (0xE0 * 4096 + 0x80 * 64 + 0x80) = c"
proof -
  define q z where "q = c div 64" and "z = c mod 64"
  define x y where "x = q div 64" and "y = q mod 64"
  have c: "c = q * 64 + z" and z: "z < 64" by (simp_all add: q_def z_def)
  have q: "q = x * 64 + y" and y: "y < 64" by (simp_all add: x_def y_def)
  have "c div 4096 = (c div 64) div 64" by (simp add: div_mult2_eq)
  then have a: "a = 0xE0 + x" by (simp add: a_def x_def q_def)
  have b: "b = 0x80 + y" by (simp add: b_def y_def q_def)
  have d: "d = 0x80 + z" by (simp add: d_def z_def)
  have cxyz: "c = x * 4096 + y * 64 + z" unfolding c q by simp
  have x: "x < 16" using assms(2) z y unfolding cxyz by linarith
  show "0xE0 \<le> a" "a < 0xF0" "0x80 \<le> b" "b < 0xC0" "0x80 \<le> d" "d < 0xC0"
    using x y z by (simp_all add: a b d)
  show "a = 0xE0 \<longrightarrow> 0xA0 \<le> b"
  proof
    assume "a = 0xE0"
    then have "x = 0" by (simp add: a)
    with assms(1) z have "32 \<le> y" unfolding cxyz by linarith
    then show "0xA0 \<le> b" by (simp add: b)
  qed
  show "a = 0xED \<longrightarrow> b < 0xA0"
  proof
    assume "a = 0xED"
    then have "x = 13" by (simp add: a)
    with assms(3) z y have "y < 32" unfolding cxyz by linarith
    then show "b < 0xA0" by (simp add: b)
  qed
  show "a * 4096 + b * 64 + d - (0xE0 * 4096 + 0x80 * 64 + 0x80) = c"
    unfolding a b d cxyz by simp
qed

lemma enc_bits4:
  fixes c :: nat
  assumes "0x10000 \<le> c" "c < 0x110000"
  defines "a \<equiv> 0xF0 + c div 262144" and "b \<equiv> 0x80 + (c div 4096) mod 64"
    and "d \<equiv> 0x80 + (c div 64) mod 64" and "e \<equiv> 0x80 + c mod 64"
  shows "0xF0 \<le> a" "a < 0xF5" "0x80 \<le> b" "b < 0xC0" "0x80 \<le> d" "d < 0xC0"
    "0x80 \<le> e" "e < 0xC0"
    "a = 0xF0 \<longrightarrow> 0x90 \<le> b" "a = 0xF4 \<longrightarrow> b < 0x90"
    "a * 262144 + b * 4096 + d * 64 + e - (0xF0 * 262144 + 0x80 * 4096 + 0x80 * 64 + 0x80) = c"
proof -
  define q w where "q = c div 64" and "w = c mod 64"
  define r z where "r = q div 64" and "z = q mod 64"
  define x y where "x = r div 64" and "y = r mod 64"
  have c: "c = q * 64 + w" and w: "w < 64" by (simp_all add: q_def w_def)
  have q: "q = r * 64 + z" and z: "z < 64" by (simp_all add: r_def z_def)
  have r: "r = x * 64 + y" and y: "y < 64" by (simp_all add: x_def y_def)
  have d4096: "c div 4096 = (c div 64) div 64" by (simp add: div_mult2_eq)
  have "c div 262144 = (c div 4096) div 64" by (simp add: div_mult2_eq)
  then have a: "a = 0xF0 + x" by (simp add: a_def x_def r_def q_def d4096)
  have b: "b = 0x80 + y" by (simp add: b_def y_def r_def q_def d4096)
  have d: "d = 0x80 + z" by (simp add: d_def z_def q_def)
  have e: "e = 0x80 + w" by (simp add: e_def w_def)
  have cxyz: "c = x * 262144 + y * 4096 + z * 64 + w" unfolding c q r by simp
  have x: "x < 5"
  proof (rule ccontr)
    assume "\<not> x < 5"
    then have "5 * 262144 \<le> x * 262144" by simp
    with assms(2) show False unfolding cxyz by linarith
  qed
  show "0xF0 \<le> a" "a < 0xF5" "0x80 \<le> b" "b < 0xC0" "0x80 \<le> d" "d < 0xC0"
    "0x80 \<le> e" "e < 0xC0"
    using x y z w by (simp_all add: a b d e)
  show "a = 0xF0 \<longrightarrow> 0x90 \<le> b"
  proof
    assume "a = 0xF0"
    then have "x = 0" by (simp add: a)
    with assms(1) z w have "16 \<le> y" unfolding cxyz by linarith
    then show "0x90 \<le> b" by (simp add: b)
  qed
  show "a = 0xF4 \<longrightarrow> b < 0x90"
  proof
    assume "a = 0xF4"
    then have "x = 4" by (simp add: a)
    with assms(2) show "b < 0x90" unfolding cxyz b by linarith
  qed
  show "a * 262144 + b * 4096 + d * 64 + e - (0xF0 * 262144 + 0x80 * 4096 + 0x80 * 64 + 0x80) = c"
    unfolding a b d e cxyz by simp
qed

lemma utf8_encode_char_decode_one:
  assumes "utf8_encode_char c = Inr bs" "c < 0x110000"
  shows "\<exists>b t. bs = b # t \<and> utf8_decode_one b (t @ s) = Decoded c (length bs)"
proof -
  consider "c < 0x80" | "0x80 \<le> c" "c < 0x800"
    | "0x800 \<le> c" "c < 0x10000" "\<not> (0xD800 \<le> c \<and> c \<le> 0xDFFF)"
    | "0xD800 \<le> c \<and> c \<le> 0xDFFF" | "0x10000 \<le> c"
    by linarith
  then show ?thesis
  proof cases
    case 1
    then have "unat (of_nat c :: byte) = c" by (simp add: unat_of_nat_byte)
    with 1 assms(1) show ?thesis
      by (auto simp: utf8_encode_char_def utf8_decode_one_def)
  next
    case 2
    from 2 assms(1) have bs: "bs = [of_nat (0xC0 + c div 64), of_nat (0x80 + c mod 64)]"
      by (simp add: utf8_encode_char_def)
    note f = enc_bits2 [OF 2]
    have "utf8_decode_one (of_nat (0xC0 + c div 64)) (of_nat (0x80 + c mod 64) # s) =
        Decoded ((0xC0 + c div 64) * 64 + (0x80 + c mod 64) - (0xC0 * 64 + 0x80)) 2"
      using f(1,2) _ f(3) by (rule dec2_of_bytes) simp
    then show ?thesis unfolding f(4) by (simp add: bs)
  next
    case 3
    from 3 assms(1) have bs: "bs = [of_nat (0xE0 + c div 4096), of_nat (0x80 + (c div 64) mod 64),
        of_nat (0x80 + c mod 64)]"
      by (auto simp: utf8_encode_char_def split: if_splits)
    note f = enc_bits3 [OF 3]
    have "utf8_decode_one (of_nat (0xE0 + c div 4096))
        (of_nat (0x80 + (c div 64) mod 64) # of_nat (0x80 + c mod 64) # s) =
        Decoded ((0xE0 + c div 4096) * 4096 + (0x80 + (c div 64) mod 64) * 64 + (0x80 + c mod 64)
                 - (0xE0 * 4096 + 0x80 * 64 + 0x80)) 3"
      using f(1-8) by (rule dec3_of_bytes)
    then show ?thesis unfolding f(9) by (simp add: bs)
  next
    case 4
    with assms(1) show ?thesis by (simp add: utf8_encode_char_def)
  next
    case 5
    from 5 assms(1) have bs: "bs = [of_nat (0xF0 + c div 262144),
        of_nat (0x80 + (c div 4096) mod 64), of_nat (0x80 + (c div 64) mod 64),
        of_nat (0x80 + c mod 64)]"
      by (auto simp: utf8_encode_char_def split: if_splits)
    note f = enc_bits4 [OF 5 assms(2)]
    have "utf8_decode_one (of_nat (0xF0 + c div 262144))
        (of_nat (0x80 + (c div 4096) mod 64) # of_nat (0x80 + (c div 64) mod 64)
           # of_nat (0x80 + c mod 64) # s) =
        Decoded ((0xF0 + c div 262144) * 262144 + (0x80 + (c div 4096) mod 64) * 4096
                 + (0x80 + (c div 64) mod 64) * 64 + (0x80 + c mod 64)
                 - (0xF0 * 262144 + 0x80 * 4096 + 0x80 * 64 + 0x80)) 4"
      using f(1-10) by (rule dec4_of_bytes)
    then show ?thesis unfolding f(11) by (simp add: bs)
  qed
qed

lemma utf8_encode_decode:
  "utf8_encode p = Inr bs \<Longrightarrow> \<forall>c\<in>set p. c < 0x110000 \<Longrightarrow> utf8_decode errors bs = Inr p"
proof (induction p arbitrary: bs)
  case Nil
  then show ?case by simp
next
  case (Cons c p)
  from Cons.prems(1) obtain cs r where
    cs: "utf8_encode_char c = Inr cs" and r: "utf8_encode p = Inr r" and bs: "bs = cs @ r"
    by (auto split: sum.splits)
  from Cons.prems(2) have c: "c < 0x110000" and p: "\<forall>c\<in>set p. c < 0x110000" by simp_all
  from utf8_encode_char_decode_one [OF cs c, of r] obtain b t where
    bt: "cs = b # t" and one: "utf8_decode_one b (t @ r) = Decoded c (length cs)" by blast
  from Cons.IH [OF r p] have "utf8_decode errors r = Inr p" .
  then show ?case by (simp add: bs bt one [unfolded bt])
qed

lemma utf8_decode_ignore_total: "\<exists>p. utf8_decode Ignore s = Inr p"
  by (induction Ignore s rule: utf8_decode.induct)
     (auto split: utf8_result.splits sum.splits)

subsection \<open>Sampling\<close>

lemma mset_take_swap_remove:
  assumes "j < m" "m \<le> length pool"
  shows "mset (take m pool) =
         add_mset (pool ! j) (mset (take (m - 1) (pool[j := pool ! (m - 1)])))"
proof -
  obtain m' where m: "m = Suc m'" using assms(1) by (cases m) auto
  have len: "m' < length pool" using assms(2) m by simp
  have t: "take m pool = take m' pool @ [pool ! m']"
    using len by (simp add: m take_Suc_conv_app_nth)
  show ?thesis
  proof (cases "j = m'")
    case True
    then show ?thesis using len by (simp add: m take_Suc_conv_app_nth)
  next
    case False
    with assms(1) m have j: "j < m'" by simp
    have "pool ! j \<in># mset (take m' pool)"
      using j len by (metis in_set_conv_nth length_take min.absorb2 less_imp_le nth_take set_mset_mset)
    moreover have "mset (take m' (pool[j := pool ! m'])) =
        add_mset (pool ! m') (mset (take m' pool) - {#pool ! j#})"
      using j len by (simp add: take_update_swap mset_update)
    ultimately have "add_mset (pool ! j) (mset (take (m - 1) (pool[j := pool ! (m - 1)]))) =
        add_mset (pool ! m') (mset (take m' pool))"
      by (simp add: m)
    then show ?thesis by (simp add: t)
  qed
qed

lemma randbelow_less: "0 < n \<Longrightarrow> randbelow n g = (j, g') \<Longrightarrow> j < n"
  by (auto simp: randbelow_def)

lemma sample_pool_mset:
  "sample_pool n [i..<k] pool g = (result, g') \<Longrightarrow> k \<le> n \<Longrightarrow> length pool = n \<Longrightarrow>
     length result = k - i \<and> mset result \<subseteq># mset (take (n - i) pool)"
proof (induction "k - i" arbitrary: i pool g result g')
  case 0
  then show ?case by simp
next
  case (Suc d)
  then have ik: "i < k" by simp
  then have upt: "[i..<k] = i # [Suc i..<k]" by (simp add: upt_conv_Cons)
  obtain j g1 where rb: "randbelow (n - i) g = (j, g1)" by (cases "randbelow (n - i) g")
  let ?pool = "pool[j := pool ! (n - Suc i)]"
  obtain rest g2 where rec: "sample_pool n [Suc i..<k] ?pool g1 = (rest, g2)"
    by (cases "sample_pool n [Suc i..<k] ?pool g1")
  from Suc.prems(1) have res: "result = pool ! j # rest"
    by (simp add: upt rb rec)
  have j: "j < n - i" using rb ik Suc.prems(2) by (intro randbelow_less [of "n - i" g j g1]) simp_all
  have d: "d = k - Suc i" using Suc.hyps(2) by simp
  from Suc.hyps(1) [OF d rec Suc.prems(2)] Suc.prems(3)
  have ih: "length rest = k - Suc i" "mset rest \<subseteq># mset (take (n - Suc i) ?pool)" by simp_all
  have "mset (take (n - i) pool) = add_mset (pool ! j) (mset (take (n - i - 1) (pool[j := pool ! (n - i - 1)])))"
    using j Suc.prems(3) by (intro mset_take_swap_remove) simp_all
  then show ?case using ih ik by (simp add: res)
qed

lemma draw_unselected_sound:
  assumes "draw_unselected n selected g = Some y"
  shows "(0 < n \<longrightarrow> fst y < n) \<and> fst y \<notin> selected \<and> (\<exists>t. snd y = (\<lambda>k. g (k + t)))"
proof (rule draw_unselected.raw_induct
    [where P = "\<lambda>n selected g y.
       (0 < n \<longrightarrow> fst y < n) \<and> fst y \<notin> selected \<and> (\<exists>t. snd y = (\<lambda>k. g (k + t)))",
     OF _ assms], goal_cases)
  case (1 draw n selected g y)
  show ?case
  proof (cases "g 0 mod n \<in> selected")
    case True
    with 1(2) have a: "draw n selected (\<lambda>i. g (Suc i)) = Some y"
      by (simp add: randbelow_def)
    from 1(1) [OF a] obtain t where
      "(0 < n \<longrightarrow> fst y < n) \<and> fst y \<notin> selected" "snd y = (\<lambda>k. g (Suc (k + t)))"
      by auto
    then have "snd y = (\<lambda>k. g (k + Suc t))" by simp
    with \<open>(0 < n \<longrightarrow> fst y < n) \<and> fst y \<notin> selected\<close> show ?thesis by blast
  next
    case False
    with 1(2) have y: "y = (g 0 mod n, \<lambda>i. g (Suc i))"
      by (simp add: randbelow_def)
    have "snd y = (\<lambda>k. g (k + 1))" by (simp add: y)
    then have "\<exists>t. snd y = (\<lambda>k. g (k + t))" by (rule exI)
    moreover have "(0 < n \<longrightarrow> fst y < n) \<and> fst y \<notin> selected" using False by (simp add: y)
    ultimately show ?thesis by simp
  qed
qed

lemma sample_set_sound:
  "sample_set n steps population selected g = Some (result, g') \<Longrightarrow> 0 < n \<Longrightarrow>
     \<exists>js. result = map ((!) population) js \<and> distinct js \<and> set js \<inter> selected = {} \<and>
          (\<forall>j\<in>set js. j < n) \<and> length js = length steps"
proof (induction steps arbitrary: selected g result g')
  case Nil
  then show ?case by simp
next
  case (Cons i steps)
  from Cons.prems(1) obtain j g1 rest where
    draw: "draw_unselected n selected g = Some (j, g1)" and
    rec: "sample_set n steps population (insert j selected) g1 = Some (rest, g')" and
    res: "result = population ! j # rest"
    by (auto split: option.splits)
  from draw_unselected_sound [OF draw] Cons.prems(2) have j: "j < n" "j \<notin> selected" by simp_all
  from Cons.IH [OF rec Cons.prems(2)] obtain js where
    js: "rest = map ((!) population) js" "distinct js" "set js \<inter> insert j selected = {}"
      "\<forall>j\<in>set js. j < n" "length js = length steps"
    by blast
  have "result = map ((!) population) (j # js)" by (simp add: res js(1))
  moreover have "distinct (j # js)" using js(2,3) by auto
  moreover have "set (j # js) \<inter> selected = {}" using js(3) j(2) by auto
  moreover have "\<forall>j\<in>set (j # js). j < n" using js(4) j(1) by simp
  moreover have "length (j # js) = length (i # steps)" using js(5) by simp
  ultimately show ?case by blast
qed

lemma mset_map_nth_subset:
  assumes "distinct js" "\<forall>j\<in>set js. j < length xs"
  shows "mset (map ((!) xs) js) \<subseteq># mset xs"
proof -
  have "mset js \<subseteq># mset [0..<length xs]"
  proof (rule mset_subset_eqI)
    fix a
    show "count (mset js) a \<le> count (mset [0..<length xs]) a"
    proof (cases "a \<in> set js")
      case True
      with assms have "count (mset js) a = 1" "a < length xs"
        by (simp_all add: distinct_count_atmost_1)
      then show ?thesis by (simp add: count_mset)
    next
      case False
      then show ?thesis by (simp add: count_mset count_list_0_iff)
    qed
  qed
  then have "image_mset ((!) xs) (mset js) \<subseteq># image_mset ((!) xs) (mset [0..<length xs])"
    by (rule image_mset_subseteq_mono)
  also have "\<dots> = mset (map ((!) xs) [0..<length xs])" by (simp only: mset_map)
  also have "\<dots> = mset xs" by (simp only: map_nth)
  finally show ?thesis by (simp only: mset_map)
qed


lemma ceil_log4_le1: "m \<le> 1 \<Longrightarrow> ceil_log4 m = 0"
  by (subst ceil_log4.simps) simp

lemma ceil_log4_le4: "2 \<le> m \<Longrightarrow> m \<le> 4 \<Longrightarrow> ceil_log4 m = 1"
  by (subst ceil_log4.simps) (simp add: ceil_log4_le1)

lemma ceil_log4_le16: "5 \<le> m \<Longrightarrow> m \<le> 16 \<Longrightarrow> ceil_log4 m = 2"
  by (subst ceil_log4.simps) (simp add: ceil_log4_le4)

lemma ceil_log4_le64: "17 \<le> m \<Longrightarrow> m \<le> 64 \<Longrightarrow> ceil_log4 m = 3"
  by (subst ceil_log4.simps) (simp add: ceil_log4_le16)

lemma random_sample_sound:
  assumes "random_sample population k g = Some (r, g')" "0 \<le> k" "k \<le> int (length population)"
  shows "\<exists>result. r = Inr result \<and> length result = nat k \<and> mset result \<subseteq># mset population"
proof -
  let ?n = "length population"
  let ?setsize = "21 + (if k > 5 then 4 ^ ceil_log4 (nat k * 3) else 0)"
  have k: "nat k \<le> ?n" using assms(2,3) by simp
  show ?thesis
  proof (cases "?n \<le> ?setsize")
    case True
    with assms obtain result where
      sp: "sample_pool ?n [0..<nat k] population g = (result, g')" and r: "r = Inr result"
      by (auto simp: random_sample_def Let_def split: prod.splits)
    from sample_pool_mset [OF sp k] have "length result = nat k" "mset result \<subseteq># mset population"
      by simp_all
    with r show ?thesis by simp
  next
    case False
    with assms obtain result where
      ss: "sample_set ?n [0..<nat k] population {} g = Some (result, g')" and r: "r = Inr result"
      by (auto simp: random_sample_def Let_def split: option.splits)
    from False have pos: "0 < ?n" by (cases population) simp_all
    from sample_set_sound [OF ss pos] obtain js where
      js: "result = map ((!) population) js" "distinct js" "\<forall>j\<in>set js. j < ?n"
        "length js = length [0..<nat k]"
      by blast
    have "mset result \<subseteq># mset population"
      unfolding js(1) using js(2,3) by (rule mset_map_nth_subset)
    moreover have "length result = nat k" using js(1,4) by simp
    ultimately show ?thesis using r by simp
  qed
qed

lemma random_sample_pool_returns:
  assumes "0 \<le> k" "k \<le> int (length population)"
    "length population \<le> 21 + (if k > 5 then 4 ^ ceil_log4 (nat k * 3) else 0)"
  shows "\<exists>result g'. random_sample population k g = Some (Inr result, g')"
  using assms by (simp add: random_sample_def Let_def split: prod.splits)

lemma draw_unselected_returns:
  "g i mod n \<notin> selected \<Longrightarrow> \<exists>y. draw_unselected n selected g = Some y"
proof (induction i arbitrary: g)
  case 0
  then show ?case by (subst draw_unselected.simps) (simp add: randbelow_def)
next
  case (Suc i)
  show ?case
  proof (cases "g 0 mod n \<in> selected")
    case True
    from Suc.prems have "(\<lambda>k. g (Suc k)) i mod n \<notin> selected" by simp
    from Suc.IH [of "\<lambda>k. g (Suc k)", OF this] obtain y where "draw_unselected n selected (\<lambda>k. g (Suc k)) = Some y" ..
    with True show ?thesis by (subst draw_unselected.simps) (simp add: randbelow_def)
  next
    case False
    then show ?thesis by (subst draw_unselected.simps) (simp add: randbelow_def)
  qed
qed

lemma fair_shift: "fair n g \<Longrightarrow> fair n (\<lambda>k. g (k + t))"
  unfolding fair_def
proof (intro allI impI)
  fix m j
  assume f: "\<forall>m j. j < n \<longrightarrow> (\<exists>i\<ge>m. g i mod n = j)" and j: "j < n"
  then obtain i where i: "m + t \<le> i" "g i mod n = j" by blast
  then have "m \<le> i - t" "g (i - t + t) mod n = j" by simp_all
  then show "\<exists>i\<ge>m. g (i + t) mod n = j" by blast
qed

lemma sample_set_returns:
  "fair n g \<Longrightarrow> finite selected \<Longrightarrow> selected \<subseteq> {..<n} \<Longrightarrow> card selected + length steps \<le> n \<Longrightarrow>
     \<exists>y. sample_set n steps population selected g = Some y"
proof (induction steps arbitrary: selected g)
  case Nil
  then show ?case by simp
next
  case (Cons i steps)
  have "card selected < card {..<n}" using Cons.prems(4) by simp
  then have "\<not> {..<n} \<subseteq> selected"
    using Cons.prems(2) by (metis card_mono not_less)
  then obtain j where j: "j < n" "j \<notin> selected" by auto
  with Cons.prems(1) obtain i0 where "g i0 mod n = j" unfolding fair_def by blast
  with j have "g i0 mod n \<notin> selected" by simp
  from draw_unselected_returns [of g i0 n selected, OF this] obtain y where
    draw: "draw_unselected n selected g = Some y" ..
  from j have pos: "0 < n" by simp
  from draw_unselected_sound [OF draw] pos obtain t where
    y: "fst y < n" "fst y \<notin> selected" "snd y = (\<lambda>k. g (k + t))" by auto
  have "fair n (snd y)" unfolding y(3) using Cons.prems(1) by (rule fair_shift)
  moreover have "finite (insert (fst y) selected)" using Cons.prems(2) by simp
  moreover have "insert (fst y) selected \<subseteq> {..<n}" using Cons.prems(3) y(1) by simp
  moreover have "card (insert (fst y) selected) + length steps \<le> n"
    using Cons.prems(2,4) y(2) by simp
  ultimately obtain z where
    "sample_set n steps population (insert (fst y) selected) (snd y) = Some z"
    using Cons.IH by blast
  with draw show ?case by (cases y; cases z) simp
qed

lemma random_sample_returns:
  assumes "0 \<le> k" "k \<le> int (length population)" "fair (length population) g"
  shows "\<exists>y. random_sample population k g = Some y"
proof -
  have "\<exists>y. sample_set (length population) [0..<nat k] population {} g = Some y"
    using assms by (intro sample_set_returns) simp_all
  then show ?thesis
    using assms(1,2) by (auto simp: random_sample_def Let_def split: prod.splits)
qed

lemma fair_identity: "0 < n \<Longrightarrow> fair n (\<lambda>i. i)"
  unfolding fair_def
proof (intro allI impI)
  fix m j
  assume "0 < n" "j < n"
  then have "m \<le> m * n" by (cases n) simp_all
  then have "m \<le> m * n + j" by (rule trans_le_add1)
  moreover have "(m * n + j) mod n = j" using \<open>j < n\<close> by simp
  ultimately have "m \<le> m * n + j \<and> (m * n + j) mod n = j" ..
  then show "\<exists>i\<ge>m. i mod n = j" by blast
qed

lemma distinct_mset_subseteq:
  assumes "mset xs \<subseteq># mset ys" "distinct ys"
  shows "distinct xs"
proof -
  have "count (mset xs) a = (if a \<in> set xs then 1 else 0)" for a
  proof -
    have "count (mset xs) a \<le> count (mset ys) a"
      using assms(1) by (rule mset_subset_eq_count)
    moreover have "count (mset ys) a \<le> 1"
      using assms(2) by (simp add: distinct_count_atmost_1)
    ultimately have le: "count (mset xs) a \<le> 1" by (rule le_trans)
    show ?thesis
    proof (cases "a \<in> set xs")
      case True
      then have "0 < count (mset xs) a"
        by (simp only: count_greater_zero_iff set_mset_mset)
      with le have "count (mset xs) a = 1" by linarith
      with True show ?thesis by (simp only: if_True)
    next
      case False
      then have "\<not> 0 < count (mset xs) a"
        by (simp only: count_greater_zero_iff set_mset_mset not_False_eq_True)
      then have "count (mset xs) a = 0" by linarith
      with False show ?thesis by (simp only: if_False)
    qed
  qed
  then show ?thesis by (simp only: distinct_count_atmost_1) simp
qed

lemma sample_s3_bucket_contents_sound:
  assumes "list_objects_v2 (s3 self) bucket = Inr response" "Contents response = Some contents"
    and "sample_s3_bucket_contents self bucket w = Some (r, w')"
  shows "\<exists>sample. r = Inr sample \<and> int (length sample) = min 10 (int (length contents))
           \<and> mset sample \<subseteq># mset (map Key contents)"
proof -
  let ?keys = "map Key contents"
  let ?k = "min 10 (int (length ?keys))"
  from assms obtain g where
    rs: "random_sample ?keys ?k (generator w) = Some (r, g)"
    by (auto simp: sample_s3_bucket_contents_def send_def Let_def split: option.splits)
  have "0 \<le> ?k" "?k \<le> int (length ?keys)" by simp_all
  from random_sample_sound [OF rs this] show ?thesis by auto
qed

lemma sample_s3_bucket_contents_returns:
  assumes "list_objects_v2 (s3 self) bucket = Inr response" "Contents response = Some contents"
    and "length contents \<le> 85 \<or> fair (length contents) (generator w)"
  shows "\<exists>y. sample_s3_bucket_contents self bucket w = Some y"
proof -
  let ?keys = "map Key contents"
  let ?k = "min 10 (int (length ?keys))"
  have k: "0 \<le> ?k" "?k \<le> int (length ?keys)" by simp_all
  have "\<exists>y. random_sample ?keys ?k (generator w) = Some y"
    using assms(3)
  proof
    assume le: "length contents \<le> 85"
    have "length ?keys \<le> 21 + (if ?k > 5 then 4 ^ ceil_log4 (nat ?k * 3) else 0)"
    proof (cases "?k > 5")
      case True
      then have "17 \<le> nat ?k * 3" "nat ?k * 3 \<le> 64" by auto
      then have "ceil_log4 (nat ?k * 3) = 3" by (rule ceil_log4_le64)
      with True le show ?thesis by simp
    next
      case False
      then show ?thesis by auto
    qed
    from random_sample_pool_returns [OF k this] show ?thesis by blast
  next
    assume "fair (length contents) (generator w)"
    then have "fair (length ?keys) (generator w)" by simp
    from random_sample_returns [OF k this] show ?thesis .
  qed
  then show ?thesis
    using assms(1,2)
    by (auto simp: sample_s3_bucket_contents_def send_def Let_def split: option.splits)
qed

lemma utf8_encode_replicate_E9:
  "utf8_encode (replicate n 0xE9) = Inr (concat (replicate n [0xC3, 0xA9]))"
  by (induction n) (simp_all add: utf8_encode_char_def)

section \<open>The claims\<close>

text \<open>
  Claim C1: the sample has length \<open>min(n, len(K))\<close> for the configured sample size \<open>n\<close>.
  The method samples \<open>min(10, len(K))\<close> keys whatever the configured size is: an
  inspector configured with sample size 2 returns all three keys of a bucket with three
  objects, for every state of the random source.
\<close>

theorem sample_ignores_sample_size:
  "sample_size (example_inspector (Some three_keys) [] None 2 10) = 2
   \<and> (\<exists>sample w'. sample_s3_bucket_contents (example_inspector (Some three_keys) [] None 2 10)
          ''b'' w = Some (Inr sample, w')
        \<and> length sample = 3)"
proof -
  let ?self = "example_inspector (Some three_keys) [] None 2 10"
  have l: "list_objects_v2 (s3 ?self) ''b'' = Inr \<lparr>Contents = Some three_keys\<rparr>"
    by (simp add: example_defs)
  have c: "Contents \<lparr>Contents = Some three_keys\<rparr> = Some three_keys" by simp
  have "length three_keys \<le> 85 \<or> fair (length three_keys) (generator w)"
    by (simp add: three_keys_def)
  from sample_s3_bucket_contents_returns [OF l c this] obtain r w' where
    s: "sample_s3_bucket_contents ?self ''b'' w = Some (r, w')" by (cases) auto
  from sample_s3_bucket_contents_sound [OF l c s] obtain sample where
    "r = Inr sample" "int (length sample) = min 10 (int (length three_keys))" by blast
  then have "r = Inr sample" "length sample = 3" by (simp_all add: three_keys_def)
  with s show ?thesis by (auto simp: example_defs)
qed

text \<open>
  Claim C2: the payload sent to the classifier stays under 100,000 bytes even when every
  character of the text takes several bytes. The text is cut to 90,000 characters, not
  bytes: of a text of 90,001 times the character U+00E9 the method sends 90,000
  characters, which are 180,000 bytes in UTF-8.
\<close>

theorem truncated_payload_exceeds_byte_limit:
  "requests (snd (check_for_pii_using_aws_comprehend self bucket key (replicate 90001 0xE9) w)) =
     requests w @ [Contains_pii_entities (replicate 90000 0xE9) ''en'']
   \<and> (\<exists>payload. utf8_encode (replicate 90000 0xE9) = Inr payload \<and> length payload = 180000)"
proof
  show "requests (snd (check_for_pii_using_aws_comprehend self bucket key (replicate 90001 0xE9) w)) =
     requests w @ [Contains_pii_entities (replicate 90000 0xE9) ''en'']"
    by (simp add: check_for_pii_using_aws_comprehend_def send_def Let_def split: sum.splits)
  have "length (concat (replicate 90000 [0xC3 :: byte, 0xA9])) = 180000"
    by (simp add: length_concat sum_list_replicate)
  then show "\<exists>payload. utf8_encode (replicate 90000 0xE9) = Inr payload \<and> length payload = 180000"
    by (simp add: utf8_encode_replicate_E9)
qed

text \<open>
  Claim C3: the preview shows exactly the first \<open>N\<close> lines for the configured \<open>N\<close>.
  The method prints the first ten lines whenever \<open>N\<close> is positive: with \<open>N = 3\<close> and
  a text of five lines, the heading announces three lines and all five are printed.
\<close>

theorem preview_prints_ten_lines_not_display_lines:
  "inspect_object
     (example_inspector None five_lines (Some [\<lparr>Name = ''EMAIL'', Score = 1\<rparr>]) 10 3)
     ''b'' ''k'' example_world =
   (None,
    \<lparr>stdout = [Checking ''b'' ''k'', PII_entities_found ''b'' ''k'', Type_Score ''EMAIL'' 1,
               First_lines 3 ''b'' ''k'',
               Numbered_line 1 [0x61], Numbered_line 2 [0x62], Numbered_line 3 [0x63],
               Numbered_line 4 [0x64], Numbered_line 5 [0x65], Blank_line],
     requests = [Get_object ''b'' ''k'',
                 Contains_pii_entities [0x61, 0x0A, 0x62, 0x0A, 0x63, 0x0A, 0x64, 0x0A, 0x65] ''en''],
     generator = (\<lambda>i. i)\<rparr>)"
proof -
  have d: "decode_content five_lines = Inr [0x61, 0x0A, 0x62, 0x0A, 0x63, 0x0A, 0x64, 0x0A, 0x65]"
    by (simp add: decode_content_def five_lines_def utf8_decode_one_def)
  have s: "splitlines [0x61, 0x0A, 0x62, 0x0A, 0x63, 0x0A, 0x64, 0x0A, 0x65] =
      [[0x61], [0x62], [0x63], [0x64], [0x65]]"
    by (simp add: splitlines_def ISLINEBREAK_def)
  show ?thesis
    by (simp add: inspect_object_def read_s3_object_content_def d s
        check_for_pii_using_aws_comprehend_def process_pii_entities_def IGNORE_TYPES_def
        report_labels_def print_def send_def example_defs Let_def enumerate_simps)
qed

text \<open>
  Claim C4: decoding the content never raises and always gives a text, also for the empty
  input; and decoding valid UTF-8 is lossless. Bytes that the strict decoder accepts
  decode to the text it gives, and that text encodes to exactly the bytes that were
  read; and bytes that are the encoding of a text (code points below 0x110000, no
  surrogates) decode to that text.
\<close>

theorem decode_content_total_and_lossless:
  "(\<exists>content_str. decode_content content = Inr content_str)
   \<and> decode_content [] = Inr []
   \<and> (\<forall>p. utf8_decode Strict content = Inr p \<longrightarrow>
          decode_content content = Inr p \<and> utf8_encode p = Inr content)
   \<and> (\<forall>p. (\<forall>c\<in>set p. c < 0x110000) \<longrightarrow> utf8_encode p = Inr content \<longrightarrow>
          decode_content content = Inr p)"
proof (intro conjI allI impI)
  show "\<exists>content_str. decode_content content = Inr content_str"
  proof (cases "utf8_decode Strict content")
    case (Inl e)
    then have "e = UnicodeDecodeError" by (rule utf8_decode_strict_error)
    with Inl utf8_decode_ignore_total [of content] show ?thesis
      by (simp add: decode_content_def)
  next
    case (Inr p)
    then show ?thesis by (simp add: decode_content_def)
  qed
  show "decode_content [] = Inr []" by (simp add: decode_content_def)
next
  fix p
  assume p: "utf8_decode Strict content = Inr p"
  then show "decode_content content = Inr p" by (simp add: decode_content_def)
  from p show "utf8_encode p = Inr content" by (rule utf8_decode_encode_gen) simp
next
  fix p
  assume "\<forall>c\<in>set p. c < 0x110000" "utf8_encode p = Inr content"
  then have "utf8_decode Strict content = Inr p" by (intro utf8_encode_decode)
  then show "decode_content content = Inr p" by (simp add: decode_content_def)
qed

theorem decode_content_total_and_lossless_witness:
  "decode_content [0xC3, 0xA9, 0x41] = Inr [0xE9, 0x41]
   \<and> utf8_encode [0xE9, 0x41] = Inr [0xC3, 0xA9, 0x41]"
proof -
  have "utf8_decode Strict [0xC3, 0xA9, 0x41] = Inr [0xE9, 0x41]"
    by (simp add: utf8_decode_one_def utf8_decode2_def IS_CONTINUATION_BYTE_def)
  with decode_content_total_and_lossless [of "[0xC3, 0xA9, 0x41]"]
  show ?thesis by blast
qed

text \<open>
  Claim C5: with the module's ignore list, the findings that \<^verbatim>\<open>process_pii_entities\<close>
  returns are the findings of the response whose category is none of DATE_TIME, DATE,
  TIME, IP_ADDRESS, MAC_ADDRESS and URL, in the order of the response.
\<close>

theorem process_pii_entities_filters:
  "process_pii_entities IGNORE_TYPES \<lparr>Labels = Some F\<rparr> object_name =
     Some (filter (\<lambda>l. Name l \<notin> {''DATE_TIME'', ''DATE'', ''TIME'', ''IP_ADDRESS'',
                                    ''MAC_ADDRESS'', ''URL''}) F)
   \<and> set IGNORE_TYPES = {''DATE_TIME'', ''DATE'', ''TIME'', ''IP_ADDRESS'', ''MAC_ADDRESS'', ''URL''}
   \<and> (\<forall>r. process_pii_entities IGNORE_TYPES \<lparr>Labels = Some F\<rparr> object_name = Some r \<longrightarrow> subseq r F)"
  by (simp add: process_pii_entities_def IGNORE_TYPES_def)

theorem process_pii_entities_filters_witness:
  "process_pii_entities IGNORE_TYPES
     \<lparr>Labels = Some [\<lparr>Name = ''EMAIL'', Score = 95 / 100\<rparr>, \<lparr>Name = ''DATE_TIME'', Score = 1 / 2\<rparr>]\<rparr> ''k''
   = Some [\<lparr>Name = ''EMAIL'', Score = 95 / 100\<rparr>]"
  using process_pii_entities_filters
    [of "[\<lparr>Name = ''EMAIL'', Score = 95 / 100\<rparr>, \<lparr>Name = ''DATE_TIME'', Score = 1 / 2\<rparr>]" "''k''"]
  by simp

text \<open>
  Claim C6: filtering is idempotent for every ignore list, and filtering with the empty
  ignore list gives the findings back unchanged.
\<close>

theorem process_pii_entities_idempotent:
  "process_pii_entities I \<lparr>Labels = process_pii_entities I \<lparr>Labels = Some F\<rparr> object_name\<rparr> object_name
     = process_pii_entities I \<lparr>Labels = Some F\<rparr> object_name
   \<and> process_pii_entities [] \<lparr>Labels = Some F\<rparr> object_name = Some F"
  by (simp add: process_pii_entities_def)

text \<open>
  Claim C7: for an empty text the classifier client returns \<^verbatim>\<open>None\<close>, sends no request
  and prints that the content is empty; the loop then goes on to the next key without
  an exception, and the only request made for the object is the fetch.
\<close>

theorem empty_content_skips_classification:
  "check_for_pii_using_aws_comprehend self bucket key [] w =
     (Inr None, w\<lparr>stdout := stdout w @ [Empty_content bucket key]\<rparr>)
   \<and> (get_object (s3 self) bucket key = Inr content \<longrightarrow> decode_content content = Inr [] \<longrightarrow>
        inspect_object self bucket key w =
          (None, w\<lparr>stdout := stdout w @ [Checking bucket key, Empty_content bucket key],
                   requests := requests w @ [Get_object bucket key]\<rparr>))"
  by (simp add: check_for_pii_using_aws_comprehend_def inspect_object_def
      read_s3_object_content_def print_def send_def)

theorem empty_content_skips_classification_witness:
  "inspect_object (example_inspector None [0xFF] None 10 10) ''b'' ''k'' example_world =
     (None, \<lparr>stdout = [Checking ''b'' ''k'', Empty_content ''b'' ''k''],
             requests = [Get_object ''b'' ''k''], generator = (\<lambda>i. i)\<rparr>)"
proof -
  have g: "get_object (s3 (example_inspector None [0xFF] None 10 10)) ''b'' ''k'' = Inr [0xFF]"
    by (simp add: example_defs)
  have d: "decode_content [0xFF] = Inr []"
    by (simp add: decode_content_def utf8_decode_one_def)
  from empty_content_skips_classification
    [of "example_inspector None [0xFF] None 10 10" "''b''" "''k''" example_world "[0xFF]"] g d
  show ?thesis by (simp add: example_world_def)
qed

text \<open>
  Claim C8: when the listing has no \<^verbatim>\<open>'Contents'\<close>, the sample is empty, the message
  about an empty or inaccessible bucket is printed, and the inspection ends without an
  exception, having sent the listing request only.
\<close>

theorem empty_listing_is_noop:
  assumes "list_objects_v2 (s3 self) bucket = Inr response" "Contents response = None"
  shows "sample_s3_bucket_contents self bucket w =
           Some (Inr [], w\<lparr>stdout := stdout w @ [Bucket_empty_or_no_permission bucket],
                           requests := requests w @ [List_objects_v2 bucket]\<rparr>)
       \<and> inspect_bucket self bucket w =
           Some (None, w\<lparr>stdout := stdout w @ [Inspecting_bucket bucket,
                                                Bucket_empty_or_no_permission bucket],
                          requests := requests w @ [List_objects_v2 bucket]\<rparr>)"
  using assms
  by (simp add: sample_s3_bucket_contents_def inspect_bucket_def print_def send_def)

theorem empty_listing_is_noop_witness:
  "inspect_bucket (example_inspector None [] None 10 10) ''b'' example_world =
     Some (None, \<lparr>stdout = [Inspecting_bucket ''b'', Bucket_empty_or_no_permission ''b''],
                  requests = [List_objects_v2 ''b''], generator = (\<lambda>i. i)\<rparr>)"
proof -
  have l: "list_objects_v2 (s3 (example_inspector None [] None 10 10)) ''b'' = Inr \<lparr>Contents = None\<rparr>"
    by (simp add: example_defs)
  have c: "Contents \<lparr>Contents = None\<rparr> = None" by simp
  from empty_listing_is_noop [OF l c, of example_world]
  show ?thesis by (simp add: example_world_def)
qed

text \<open>
  Claim C9: the sample is drawn without replacement. Whatever the method returns is a
  list of keys in which no key occurs more often than in the listing; so all its
  elements are keys of the listing, and when the keys of the listing are distinct, as
  the keys of a bucket are, the sample has no duplicates. The method returns a sample
  when the listing has at most 85 keys or the random source is fair.
\<close>

theorem sample_without_replacement:
  assumes "list_objects_v2 (s3 self) bucket = Inr response" "Contents response = Some contents"
  shows "(\<forall>r w'. sample_s3_bucket_contents self bucket w = Some (r, w') \<longrightarrow>
            (\<exists>sample. r = Inr sample \<and> mset sample \<subseteq># mset (map Key contents)
               \<and> set sample \<subseteq> set (map Key contents)
               \<and> (distinct (map Key contents) \<longrightarrow> distinct sample)))
       \<and> (length contents \<le> 85 \<or> fair (length contents) (generator w) \<longrightarrow>
            (\<exists>sample w'. sample_s3_bucket_contents self bucket w = Some (Inr sample, w')))"
proof (intro conjI allI impI)
  fix r w'
  assume s: "sample_s3_bucket_contents self bucket w = Some (r, w')"
  from sample_s3_bucket_contents_sound [OF assms s] obtain sample where
    r: "r = Inr sample" and m: "mset sample \<subseteq># mset (map Key contents)" by blast
  from m have "set sample \<subseteq> set (map Key contents)"
    by (metis set_mset_mono set_mset_mset)
  moreover have "distinct sample" if "distinct (map Key contents)"
    using m that by (rule distinct_mset_subseteq)
  ultimately show "\<exists>sample. r = Inr sample \<and> mset sample \<subseteq># mset (map Key contents)
               \<and> set sample \<subseteq> set (map Key contents)
               \<and> (distinct (map Key contents) \<longrightarrow> distinct sample)"
    using r m by blast
next
  assume "length contents \<le> 85 \<or> fair (length contents) (generator w)"
  from sample_s3_bucket_contents_returns [OF assms this] obtain r w' where
    s: "sample_s3_bucket_contents self bucket w = Some (r, w')" by (cases) auto
  from sample_s3_bucket_contents_sound [OF assms s] s
  show "\<exists>sample w'. sample_s3_bucket_contents self bucket w = Some (Inr sample, w')" by blast
qed

theorem sample_without_replacement_witness:
  "\<exists>sample w'. sample_s3_bucket_contents (example_inspector (Some three_keys) [] None 10 10)
       ''b'' example_world = Some (Inr sample, w')
     \<and> set sample \<subseteq> {''k1'', ''k2'', ''k3''} \<and> distinct sample"
proof -
  let ?self = "example_inspector (Some three_keys) [] None 10 10"
  have l: "list_objects_v2 (s3 ?self) ''b'' = Inr \<lparr>Contents = Some three_keys\<rparr>"
    by (simp add: example_defs)
  have c: "Contents \<lparr>Contents = Some three_keys\<rparr> = Some three_keys" by simp
  have d: "distinct (map Key three_keys)" "length three_keys \<le> 85"
    "set (map Key three_keys) = {''k1'', ''k2'', ''k3''}"
    by (simp_all add: three_keys_def)
  from sample_without_replacement [OF l c, of example_world] d
  show ?thesis by (metis (no_types, lifting))
qed

text \<open>
  Claim C10: for a response without \<^verbatim>\<open>'Labels'\<close> the method \<^verbatim>\<open>process_pii_entities\<close>
  returns \<^verbatim>\<open>None\<close>, and the loop prints that no PII entities were found, exactly as it
  does for a response whose labels are all filtered out or that has none.
\<close>

theorem missing_labels_reported_as_no_pii:
  assumes "get_object (s3 self) bucket key = Inr content"
    and "decode_content content = Inr content_str" and "content_str \<noteq> []"
    and "contains_pii_entities (comprehend self) (take 90000 content_str) ''en'' = Inr response"
    and "Labels response = None \<or> process_pii_entities IGNORE_TYPES response key = Some []"
  shows "process_pii_entities ignore_types \<lparr>Labels = None\<rparr> key = None
       \<and> inspect_object self bucket key w =
           (None, w\<lparr>stdout := stdout w @ [Checking bucket key, No_PII_entities_found bucket key],
                    requests := requests w @ [Get_object bucket key,
                      Contains_pii_entities (take 90000 content_str) ''en'']\<rparr>)"
proof -
  from assms(5) have "process_pii_entities IGNORE_TYPES response key = None
      \<or> process_pii_entities IGNORE_TYPES response key = Some []"
    by (auto simp: process_pii_entities_def)
  then have "inspect_object self bucket key w =
           (None, w\<lparr>stdout := stdout w @ [Checking bucket key, No_PII_entities_found bucket key],
                    requests := requests w @ [Get_object bucket key,
                      Contains_pii_entities (take 90000 content_str) ''en'']\<rparr>)"
    using assms(1-4)
    by (auto simp: inspect_object_def read_s3_object_content_def
        check_for_pii_using_aws_comprehend_def print_def send_def Let_def)
  then show ?thesis by (simp add: process_pii_entities_def)
qed

theorem missing_labels_reported_as_no_pii_witness:
  "inspect_object (example_inspector None [0x41] None 10 10) ''b'' ''k'' example_world =
     (None, \<lparr>stdout = [Checking ''b'' ''k'', No_PII_entities_found ''b'' ''k''],
             requests = [Get_object ''b'' ''k'', Contains_pii_entities [0x41] ''en''],
             generator = (\<lambda>i. i)\<rparr>)
   \<and> inspect_object (example_inspector None [0x41] (Some []) 10 10) ''b'' ''k'' example_world =
       inspect_object (example_inspector None [0x41] None 10 10) ''b'' ''k'' example_world"
proof -
  have d: "decode_content [0x41] = Inr [0x41]"
    by (simp add: decode_content_def utf8_decode_one_def)
  have n: "[0x41] \<noteq> ([] :: str)" by simp
  have a: "inspect_object (example_inspector None [0x41] labels 10 10) ''b'' ''k'' example_world =
     (None, \<lparr>stdout = [Checking ''b'' ''k'', No_PII_entities_found ''b'' ''k''],
             requests = [Get_object ''b'' ''k'', Contains_pii_entities [0x41] ''en''],
             generator = (\<lambda>i. i)\<rparr>)"
    if "labels = None \<or> labels = Some []" for labels
  proof -
    have g: "get_object (s3 (example_inspector None [0x41] labels 10 10)) ''b'' ''k'' = Inr [0x41]"
      by (simp add: example_defs)
    have c: "contains_pii_entities (comprehend (example_inspector None [0x41] labels 10 10))
               (take 90000 [0x41]) ''en'' = Inr \<lparr>Labels = labels\<rparr>"
      by (simp add: example_defs)
    have l: "Labels \<lparr>Labels = labels\<rparr> = None
        \<or> process_pii_entities IGNORE_TYPES \<lparr>Labels = labels\<rparr> ''k'' = Some []"
      using that by (auto simp: process_pii_entities_def)
    from missing_labels_reported_as_no_pii [OF g d n c l, of IGNORE_TYPES example_world]
    show ?thesis by (simp add: example_world_def)
  qed
  from a [of None] a [of "Some []"] show ?thesis by simp
qed

end
